theory Spec2Isabelle
  imports Complex_Main "HOL-Library.Word"
begin

unbundle bit_operations_syntax

section \<open>A set-associative cache simulator with LRU replacement (cache_mem.cpp)\<close>

subsection \<open>Configuration\<close>

text \<open>
  The geometry is a set of compile-time \<open>constexpr int\<close> constants. They are small, so
  they are modelled as \<open>int\<close>; no arithmetic on them can leave the range of a C++ int.
\<close>

definition CACHE_SIZE :: int where
  "CACHE_SIZE = 32 * 1024"

definition BLOCK_SIZE :: int where
  "BLOCK_SIZE = 64"

definition WAYS :: int where
  "WAYS = 4"

definition NUM_SETS :: int where
  "NUM_SETS = CACHE_SIZE div (BLOCK_SIZE * WAYS)"

text \<open>
  \<open>using Address = uint64_t\<close>. The counters are \<open>long long\<close>: 64-bit words read through
  \<open>sint\<close>. An increment of a counter at its largest value, which C++ leaves undefined
  and which takes \<open>2 ^ 63\<close> accesses to reach, wraps around in the model.
\<close>

type_synonym Address = "64 word"

type_synonym long_long = "64 word"

text \<open>
  \<open>get_log2\<close>: the loop \<open>while (n > 1) { n >>= 1; ret++; }\<close> with its two local variables
  as the arguments of the recursion, started with \<open>ret = 0\<close>.
\<close>

function get_log2_loop :: "int \<Rightarrow> int \<Rightarrow> int" where
  "get_log2_loop n ret = (if n > 1 then get_log2_loop (drop_bit 1 n) (ret + 1) else ret)"
  by pat_completeness auto
termination
  by (relation "measure (\<lambda>(n, ret). nat n)") (auto simp add: drop_bit_eq_div)

definition get_log2 :: "int \<Rightarrow> int" where
  "get_log2 n = get_log2_loop n 0"

definition OFFSET_BITS :: int where
  "OFFSET_BITS = get_log2 BLOCK_SIZE"

definition INDEX_BITS :: int where
  "INDEX_BITS = get_log2 NUM_SETS"

subsection \<open>Data model\<close>

record CacheLine =
  valid :: bool
  tag :: Address

text \<open>
  A set is a \<open>std::list<CacheLine>\<close>, front first; the simulator owns a
  \<open>std::vector\<close> of sets and three counters.
\<close>

type_synonym Set = "CacheLine list"

record CacheSimulator =
  sets :: "Set list"
  accesses :: long_long
  hits :: long_long
  misses :: long_long

text \<open>The constructor: all counters 0, \<open>sets.resize(NUM_SETS)\<close> gives \<open>NUM_SETS\<close> empty lists.\<close>

definition CacheSimulator_init :: CacheSimulator where
  "CacheSimulator_init =
     \<lparr>sets = replicate (nat NUM_SETS) [], accesses = 0, hits = 0, misses = 0\<rparr>"

subsection \<open>The standard-library operations used by the simulator\<close>

text \<open>
  \<open>std::find_if\<close> returns an iterator to the first element satisfying the predicate, or
  \<open>end()\<close>. An iterator is modelled as the position it points to, \<open>end()\<close> as \<open>None\<close>.
\<close>

fun find_if :: "('a \<Rightarrow> bool) \<Rightarrow> 'a list \<Rightarrow> nat option" where
  "find_if P [] = None"
| "find_if P (x # xs) = (if P x then Some 0 else map_option Suc (find_if P xs))"

text \<open>
  \<open>l.splice(l.begin(), l, it)\<close>: the element at \<open>it\<close> is unlinked and relinked before
  the first element; all other elements keep their relative order.
\<close>

definition splice_begin :: "nat \<Rightarrow> 'a list \<Rightarrow> 'a list" where
  "splice_begin i xs = xs ! i # take i xs @ drop (Suc i) xs"

text \<open>\<open>emplace_front\<close> is \<open>#\<close>, \<open>pop_back\<close> on a non-empty list is \<open>butlast\<close>, \<open>size\<close> is \<open>length\<close>.\<close>

subsection \<open>The access operation\<close>

text \<open>
  \<open>sets[index]\<close> on a \<open>std::vector\<close> is not bounds-checked; an index outside the vector
  is the one way an access could go wrong, so the model makes it an explicit error.
\<close>

datatype error = OutOfBounds

text \<open>Lines 63 to 66 of \<open>accessMemory\<close>: the mask, the set index and the tag of an address.\<close>

definition index_mask :: Address where
  "index_mask = push_bit (nat INDEX_BITS) 1 - 1"

definition index_of :: "Address \<Rightarrow> Address" where
  "index_of address = drop_bit (nat OFFSET_BITS) address AND index_mask"

definition tag_of :: "Address \<Rightarrow> Address" where
  "tag_of address = drop_bit (nat (OFFSET_BITS + INDEX_BITS)) address"

definition accessMemory :: "Address \<Rightarrow> CacheSimulator \<Rightarrow> error + CacheSimulator" where
  "accessMemory address sim =
     (let sim = sim\<lparr>accesses := accesses sim + 1\<rparr>;
          index = index_of address;
          t = tag_of address
      in if \<not> unat index < length (sets sim) then Inl OutOfBounds
         else
           let current_set = sets sim ! unat index
           in case find_if (\<lambda>line. valid line \<and> tag line = t) current_set of
                Some it \<Rightarrow>
                  Inr (sim\<lparr>hits := hits sim + 1,
                           sets := (sets sim)[unat index := splice_begin it current_set]\<rparr>)
              | None \<Rightarrow>
                  (let current_set = \<lparr>valid = True, tag = t\<rparr> # current_set;
                       current_set = (if int (length current_set) > WAYS
                                      then butlast current_set else current_set)
                   in Inr (sim\<lparr>misses := misses sim + 1,
                                sets := (sets sim)[unat index := current_set]\<rparr>)))"

subsection \<open>Statistics\<close>

text \<open>
  \<open>printStats\<close> writes the three counters and the hit rate to standard output; the model
  returns the four numbers behind that text. The counters are integers and are returned
  as they are. The hit rate is an IEEE \<open>double\<close> in the source, printed with two
  decimals; \<open>hitRate\<close> is the exact value of the same expression over the reals, which
  the \<open>double\<close> approximates: the roundings of the two conversions, of the division and
  of the multiplication are not modelled, and a division by zero, which the guard
  \<open>accesses > 0\<close> excludes, would give NaN in the source and 0 in HOL. Where the
  hit rate appears in a result below, it is this exact value, not the rounded one that
  the program holds and prints.
\<close>

definition hitRate :: "CacheSimulator \<Rightarrow> real" where
  "hitRate sim =
     (if sint (accesses sim) > 0
      then (real_of_int (sint (hits sim)) / real_of_int (sint (accesses sim))) * 100
      else 0)"

definition printStats :: "CacheSimulator \<Rightarrow> int \<times> int \<times> int \<times> real" where
  "printStats sim = (sint (accesses sim), sint (hits sim), sint (misses sim), hitRate sim)"

subsection \<open>The driver\<close>

text \<open>The range-based loop of \<open>main\<close> over a trace, stopping at the first error.\<close>

fun run :: "Address list \<Rightarrow> CacheSimulator \<Rightarrow> error + CacheSimulator" where
  "run [] sim = Inr sim"
| "run (addr # rest) sim =
     (case accessMemory addr sim of Inl e \<Rightarrow> Inl e | Inr sim' \<Rightarrow> run rest sim')"

definition trace :: "Address list" where
  "trace = [0x1000, 0x1004, 0x1008, 0x2000, 0x2004, 0x1000,
            0x3000, 0x4000, 0x5000, 0x6000, 0x7000]"

definition main :: "error + (int \<times> int \<times> int \<times> real)" where
  "main = (case run trace CacheSimulator_init of
             Inl e \<Rightarrow> Inl e
           | Inr sim \<Rightarrow> Inr (printStats sim))"

subsection \<open>Well-formed simulator states\<close>

text \<open>
  The properties every state built by the constructor and \<open>accessMemory\<close> has: the vector
  keeps its \<open>NUM_SETS\<close> sets, a set holds at most \<open>WAYS\<close> lines, all of them valid and
  with pairwise different tags, and the counters add up.
\<close>

definition set_inv :: "Set \<Rightarrow> bool" where
  "set_inv cs \<longleftrightarrow> int (length cs) \<le> WAYS \<and> distinct (map tag cs) \<and> list_all valid cs"

definition cache_inv :: "CacheSimulator \<Rightarrow> bool" where
  "cache_inv s \<longleftrightarrow>
     length (sets s) = nat NUM_SETS \<and> list_all set_inv (sets s) \<and>
     accesses s = hits s + misses s"

section \<open>Properties\<close>

subsection \<open>The geometry and the address decoder\<close>

lemma WAYS_val: "WAYS = 4"
  by (simp add: WAYS_def)
lemma NUM_SETS_val: "NUM_SETS = 128"
  by (simp add: NUM_SETS_def CACHE_SIZE_def BLOCK_SIZE_def WAYS_def)
lemma OFFSET_BITS_val: "OFFSET_BITS = 6"
  by (simp add: OFFSET_BITS_def get_log2_def BLOCK_SIZE_def drop_bit_eq_div)
lemma INDEX_BITS_val: "INDEX_BITS = 7"
  by (simp add: INDEX_BITS_def get_log2_def NUM_SETS_val drop_bit_eq_div)

lemma index_of_eq: "index_of a = drop_bit 6 a AND 127"
  by (simp add: index_of_def index_mask_def OFFSET_BITS_val INDEX_BITS_val)

lemma tag_of_eq: "tag_of a = drop_bit 13 a"
  by (simp add: tag_of_def OFFSET_BITS_val INDEX_BITS_val)

lemma index_of_less: "unat (index_of a) < 128"
proof -
  have "index_of a \<le> 127"
    unfolding index_of_eq by (rule word_and_le1)
  then have "unat (index_of a) \<le> unat (127 :: Address)"
    by (simp only: word_le_nat_alt)
  then show ?thesis by simp
qed

lemma unat_index_of: "unat (index_of a) = (unat a div 64) mod 128"
proof -
  have m: "(127 :: Address) = mask 7" by (simp add: mask_eq_exp_minus_1)
  have "index_of a = take_bit 7 (drop_bit 6 a)"
    by (simp only: index_of_eq m take_bit_eq_mask)
  then show ?thesis
    by (simp add: take_bit_eq_mod drop_bit_eq_div unat_div unat_mod)
qed

lemma unat_tag_of: "unat (tag_of a) = unat a div 8192"
  by (simp add: tag_of_eq drop_bit_eq_div unat_div)

subsection \<open>Search and splice\<close>

lemma find_if_None: "find_if P xs = None \<longleftrightarrow> (\<forall>x\<in>set xs. \<not> P x)"
  by (induction xs) auto

lemma find_if_Some:
  "find_if P xs = Some i \<Longrightarrow>
     i < length xs \<and> P (xs ! i) \<and> (\<forall>x\<in>set (take i xs). \<not> P x)"
proof (induction xs arbitrary: i)
  case Nil
  then show ?case by simp
next
  case (Cons x xs)
  then show ?case by (auto split: if_splits)
qed

lemma find_if_ex: "\<exists>x\<in>set xs. P x \<Longrightarrow> \<exists>i. find_if P xs = Some i"
  using find_if_None [of P xs] by (cases "find_if P xs") auto


lemma find_if_split:
  assumes "find_if P xs = Some i"
  shows "xs = take i xs @ xs ! i # drop (Suc i) xs"
  using find_if_Some [OF assms] by (simp add: id_take_nth_drop)

subsection \<open>The two paths of an access\<close>

lemma accessMemory_hit:
  assumes "unat (index_of a) < length (sets s)"
    and "find_if (\<lambda>line. valid line \<and> tag line = tag_of a) (sets s ! unat (index_of a)) = Some i"
  shows "accessMemory a s =
           Inr (s\<lparr>accesses := accesses s + 1, hits := hits s + 1,
                  sets := (sets s)[unat (index_of a) :=
                            splice_begin i (sets s ! unat (index_of a))]\<rparr>)"
  using assms by (simp add: accessMemory_def Let_def)

lemma accessMemory_miss:
  assumes "unat (index_of a) < length (sets s)"
    and "find_if (\<lambda>line. valid line \<and> tag line = tag_of a) (sets s ! unat (index_of a)) = None"
  shows "accessMemory a s =
           Inr (s\<lparr>accesses := accesses s + 1, misses := misses s + 1,
                  sets := (sets s)[unat (index_of a) :=
                            (if int (length (sets s ! unat (index_of a))) + 1 > WAYS
                             then butlast (\<lparr>valid = True, tag = tag_of a\<rparr> # sets s ! unat (index_of a))
                             else \<lparr>valid = True, tag = tag_of a\<rparr> # sets s ! unat (index_of a))]\<rparr>)"
  using assms by (simp add: accessMemory_def Let_def)

lemma accessMemory_cases:
  assumes "length (sets s) = nat NUM_SETS"
  obtains (hit) i where
      "find_if (\<lambda>line. valid line \<and> tag line = tag_of a) (sets s ! unat (index_of a)) = Some i"
      "accessMemory a s =
           Inr (s\<lparr>accesses := accesses s + 1, hits := hits s + 1,
                  sets := (sets s)[unat (index_of a) :=
                            splice_begin i (sets s ! unat (index_of a))]\<rparr>)"
  | (miss)
      "find_if (\<lambda>line. valid line \<and> tag line = tag_of a) (sets s ! unat (index_of a)) = None"
      "accessMemory a s =
           Inr (s\<lparr>accesses := accesses s + 1, misses := misses s + 1,
                  sets := (sets s)[unat (index_of a) :=
                            (if int (length (sets s ! unat (index_of a))) + 1 > WAYS
                             then butlast (\<lparr>valid = True, tag = tag_of a\<rparr> # sets s ! unat (index_of a))
                             else \<lparr>valid = True, tag = tag_of a\<rparr> # sets s ! unat (index_of a))]\<rparr>)"
proof -
  have b: "unat (index_of a) < length (sets s)"
    using assms index_of_less [of a] by (simp add: NUM_SETS_val)
  show thesis
  proof (cases "find_if (\<lambda>line. valid line \<and> tag line = tag_of a) (sets s ! unat (index_of a))")
    case None
    then show thesis using miss accessMemory_miss [OF b None] by blast
  next
    case (Some i)
    then show thesis using hit accessMemory_hit [OF b Some] by blast
  qed
qed


lemma splice_begin_split:
  assumes "find_if P xs = Some i"
  shows "\<exists>pre l post. xs = pre @ l # post \<and> P l \<and> (\<forall>x\<in>set pre. \<not> P x) \<and>
           splice_begin i xs = l # pre @ post"
proof -
  from find_if_Some [OF assms] find_if_split [OF assms]
  have "xs = take i xs @ xs ! i # drop (Suc i) xs \<and> P (xs ! i) \<and>
        (\<forall>x\<in>set (take i xs). \<not> P x) \<and>
        splice_begin i xs = xs ! i # take i xs @ drop (Suc i) xs"
    by (simp add: splice_begin_def)
  then show ?thesis by blast
qed

subsection \<open>Preservation of well-formedness\<close>

lemma set_inv_hit:
  assumes "set_inv cs" and "find_if P cs = Some i"
  shows "set_inv (splice_begin i cs)"
proof -
  from splice_begin_split [OF assms(2)] obtain pre l post
    where "cs = pre @ l # post" and "splice_begin i cs = l # pre @ post" by blast
  with assms(1) show ?thesis by (auto simp add: set_inv_def)
qed

lemma set_inv_miss:
  assumes "set_inv cs" and "find_if (\<lambda>line. valid line \<and> tag line = t) cs = None"
  shows "set_inv (if int (length cs) + 1 > WAYS
                  then butlast (\<lparr>valid = True, tag = t\<rparr> # cs)
                  else \<lparr>valid = True, tag = t\<rparr> # cs)"
proof -
  from assms have fresh: "t \<notin> tag ` set cs"
    by (auto simp add: find_if_None set_inv_def list_all_iff)
  have d: "distinct (map tag (\<lparr>valid = True, tag = t\<rparr> # cs))"
    using fresh assms(1) by (simp add: set_inv_def)
  have v: "list_all valid (\<lparr>valid = True, tag = t\<rparr> # cs)"
    using assms(1) by (simp add: set_inv_def)
  show ?thesis
  proof (cases "int (length cs) + 1 > WAYS")
    case False
    then show ?thesis using d v by (simp add: set_inv_def)
  next
    case True
    have "distinct (butlast (map tag (\<lparr>valid = True, tag = t\<rparr> # cs)))"
      using d by (rule distinct_butlast)
    then have "distinct (map tag (butlast (\<lparr>valid = True, tag = t\<rparr> # cs)))"
      by (simp only: map_butlast)
    moreover have "list_all valid (butlast (\<lparr>valid = True, tag = t\<rparr> # cs))"
      using v by (auto simp add: list_all_iff dest: in_set_butlastD)
    moreover have "int (length (butlast (\<lparr>valid = True, tag = t\<rparr> # cs))) \<le> WAYS"
      using assms(1) by (simp add: set_inv_def)
    ultimately show ?thesis using True by (simp add: set_inv_def)
  qed
qed

lemma list_all_update:
  "list_all P xs \<Longrightarrow> P x \<Longrightarrow> list_all P (xs[i := x])"
  by (induction xs arbitrary: i) (auto split: nat.splits)

lemma cache_inv_step:
  assumes "cache_inv s"
  shows "\<exists>s'. accessMemory a s = Inr s' \<and> cache_inv s'"
proof -
  let ?k = "unat (index_of a)"
  from assms have len: "length (sets s) = nat NUM_SETS" by (simp add: cache_inv_def)
  then have "?k < length (sets s)" using index_of_less [of a] by (simp add: NUM_SETS_val)
  with assms have si: "set_inv (sets s ! ?k)" by (simp add: cache_inv_def list_all_length)
  from len show ?thesis
  proof (cases rule: accessMemory_cases [where a = a])
    case (hit i)
    have "set_inv (splice_begin i (sets s ! ?k))" using si hit(1) by (rule set_inv_hit)
    then show ?thesis using assms hit(2) by (simp add: cache_inv_def list_all_update)
  next
    case miss
    have "set_inv (if int (length (sets s ! ?k)) + 1 > WAYS
                   then butlast (\<lparr>valid = True, tag = tag_of a\<rparr> # sets s ! ?k)
                   else \<lparr>valid = True, tag = tag_of a\<rparr> # sets s ! ?k)"
      using si miss(1) by (rule set_inv_miss)
    then show ?thesis using assms miss(2) by (simp add: cache_inv_def list_all_update)
  qed
qed

lemma cache_inv_run:
  "cache_inv s \<Longrightarrow> \<exists>s'. run tr s = Inr s' \<and> cache_inv s'"
proof (induction tr arbitrary: s)
  case Nil
  then show ?case by simp
next
  case (Cons a tr)
  from cache_inv_step [OF Cons.prems, of a] obtain s1
    where "accessMemory a s = Inr s1" and "cache_inv s1" by blast
  then show ?case using Cons.IH [of s1] by simp
qed

lemma cache_inv_init: "cache_inv CacheSimulator_init"
  by (simp add: cache_inv_def CacheSimulator_init_def list_all_iff set_inv_def WAYS_val)

lemma run_append:
  "run (xs @ ys) s = (case run xs s of Inl e \<Rightarrow> Inl e | Inr s' \<Rightarrow> run ys s')"
  by (induction xs arbitrary: s) (auto split: sum.splits)

lemma run_snoc:
  "run xs s = Inr s' \<Longrightarrow> run (xs @ [a]) s = accessMemory a s'"
  by (simp add: run_append split: sum.splits)

lemma accessMemory_counters:
  assumes "length (sets s) = nat NUM_SETS"
  shows "\<exists>s'. accessMemory a s = Inr s' \<and> accesses s' = accesses s + 1 \<and>
           (hits s' = hits s + 1 \<and> misses s' = misses s \<or>
            hits s' = hits s \<and> misses s' = misses s + 1)"
  using assms by (cases rule: accessMemory_cases [where a = a]) simp_all

subsection \<open>Where an access looks and what it leaves\<close>

text \<open>
  An access works on the set selected by the index of the address and on no other one:
  the state it returns differs from the old one in that set only, the first line of
  that set is then the valid line with the tag of the address, and the access counts as
  a hit exactly when that set already held a valid line with this tag.
\<close>

lemma CacheLine_valid_tag:
  "valid l \<and> tag l = t \<Longrightarrow> l = \<lparr>valid = True, tag = t\<rparr>"
  by (cases l) simp

lemma accessMemory_decodes:
  assumes "length (sets s) = nat NUM_SETS"
  shows "\<exists>s' cs. accessMemory a s = Inr s' \<and>
           sets s' = (sets s)[unat (index_of a) := \<lparr>valid = True, tag = tag_of a\<rparr> # cs] \<and>
           (hits s' = hits s + 1) =
             (\<exists>l\<in>set (sets s ! unat (index_of a)). valid l \<and> tag l = tag_of a)"
  using assms
proof (cases rule: accessMemory_cases [where a = a])
  case (hit i)
  from splice_begin_split [OF hit(1)] obtain pre l post
    where sp: "sets s ! unat (index_of a) = pre @ l # post" "valid l \<and> tag l = tag_of a"
      "splice_begin i (sets s ! unat (index_of a)) = l # pre @ post" by blast
  from sp(2) have l: "l = \<lparr>valid = True, tag = tag_of a\<rparr>" by (rule CacheLine_valid_tag)
  have ex: "\<exists>l\<in>set (sets s ! unat (index_of a)). valid l \<and> tag l = tag_of a"
    using sp(1,2) by auto
  let ?s' = "s\<lparr>accesses := accesses s + 1, hits := hits s + 1,
                sets := (sets s)[unat (index_of a) := splice_begin i (sets s ! unat (index_of a))]\<rparr>"
  have "sets ?s' = (sets s)[unat (index_of a) := \<lparr>valid = True, tag = tag_of a\<rparr> # pre @ post] \<and>
        (hits ?s' = hits s + 1) =
          (\<exists>l\<in>set (sets s ! unat (index_of a)). valid l \<and> tag l = tag_of a)"
    using sp(3) l ex by simp
  with hit(2) show ?thesis by blast
next
  case miss
  let ?new = "\<lparr>valid = True, tag = tag_of a\<rparr>"
  let ?cs = "sets s ! unat (index_of a)"
  let ?s' = "s\<lparr>accesses := accesses s + 1, misses := misses s + 1,
                sets := (sets s)[unat (index_of a) :=
                  (if int (length ?cs) + 1 > WAYS then butlast (?new # ?cs) else ?new # ?cs)]\<rparr>"
  have no: "\<not> (\<exists>l\<in>set ?cs. valid l \<and> tag l = tag_of a)"
    using miss(1) by (simp add: find_if_None)
  have front: "\<exists>cs. (if int (length ?cs) + 1 > WAYS then butlast (?new # ?cs) else ?new # ?cs)
                  = ?new # cs"
    by (cases ?cs) (simp_all add: WAYS_val)
  then obtain cs where
    "(if int (length ?cs) + 1 > WAYS then butlast (?new # ?cs) else ?new # ?cs) = ?new # cs"
    by blast
  then have "sets ?s' = (sets s)[unat (index_of a) := ?new # cs] \<and>
        (hits ?s' = hits s + 1) = (\<exists>l\<in>set ?cs. valid l \<and> tag l = tag_of a)"
    using no by simp
  with miss(2) show ?thesis by blast
qed

subsection \<open>Evaluating the simulator on concrete inputs\<close>

lemmas eval_defs = CacheSimulator_init_def accessMemory_def index_of_eq tag_of_eq
  NUM_SETS_val WAYS_val Let_def splice_begin_def

section \<open>The claims of the specification\<close>

subsection \<open>Counters\<close>

text \<open>
  Claim C1. Whatever sequence of addresses \<open>tr\<close> has been fed to a freshly constructed
  simulator, the run succeeds and the state \<open>s\<close> it reaches satisfies
  \<open>accesses = hits + misses\<close>; one more access, to any address \<open>a\<close>, succeeds too, is
  the run over \<open>tr @ [a]\<close>, adds one to \<open>accesses\<close> and one to exactly one of \<open>hits\<close> and
  \<open>misses\<close>, and the equation holds again. The counters are 64-bit words, so the
  statement also covers a counter that wraps around.
\<close>

theorem counters_add_up:
  "\<exists>s s'. run tr CacheSimulator_init = Inr s \<and> accesses s = hits s + misses s \<and>
      run (tr @ [a]) CacheSimulator_init = Inr s' \<and> accessMemory a s = Inr s' \<and>
      accesses s' = accesses s + 1 \<and>
      (hits s' = hits s + 1 \<and> misses s' = misses s \<or>
       hits s' = hits s \<and> misses s' = misses s + 1) \<and>
      accesses s' = hits s' + misses s'"
proof -
  from cache_inv_run [OF cache_inv_init, of tr] obtain s
    where r: "run tr CacheSimulator_init = Inr s" and i: "cache_inv s" by blast
  from i have len: "length (sets s) = nat NUM_SETS" by (simp add: cache_inv_def)
  from accessMemory_counters [OF len, of a] obtain s'
    where a: "accessMemory a s = Inr s'" and c1: "accesses s' = accesses s + 1"
      and c2: "hits s' = hits s + 1 \<and> misses s' = misses s \<or>
               hits s' = hits s \<and> misses s' = misses s + 1" by blast
  from cache_inv_step [OF i, of a] a have i': "cache_inv s'" by simp
  have r': "run (tr @ [a]) CacheSimulator_init = Inr s'"
    using run_snoc [OF r, of a] a by simp
  from i have e: "accesses s = hits s + misses s" by (simp add: cache_inv_def)
  from i' have e': "accesses s' = hits s' + misses s'" by (simp add: cache_inv_def)
  from r e r' a c1 c2 e' show ?thesis by blast
qed

subsection \<open>Capacity and uniqueness of tags\<close>

text \<open>
  Claim C2. After every sequence of accesses on a freshly constructed simulator, each
  set holds at most \<open>WAYS = 4\<close> lines, and no two lines of a set have the same tag.
\<close>

theorem sets_bounded_distinct:
  "\<exists>s. run tr CacheSimulator_init = Inr s \<and>
     WAYS = 4 \<and> (\<forall>cs\<in>set (sets s). int (length cs) \<le> WAYS \<and> distinct (map tag cs))"
proof -
  from cache_inv_run [OF cache_inv_init, of tr] obtain s
    where r: "run tr CacheSimulator_init = Inr s" and i: "cache_inv s" by blast
  from i have "\<forall>cs\<in>set (sets s). set_inv cs" by (simp add: cache_inv_def list_all_iff)
  then have "\<forall>cs\<in>set (sets s). int (length cs) \<le> WAYS \<and> distinct (map tag cs)"
    by (simp add: set_inv_def)
  with r WAYS_val show ?thesis by blast
qed

theorem sets_bounded_distinct_witness:
  "run [0x1000, 0x3000] CacheSimulator_init =
     Inr \<lparr>sets = (replicate 128 [])[64 := [\<lparr>valid = True, tag = 1\<rparr>, \<lparr>valid = True, tag = 0\<rparr>]],
          accesses = 2, hits = 0, misses = 2\<rparr> \<and>
   [\<lparr>valid = True, tag = 1\<rparr>, \<lparr>valid = True, tag = 0\<rparr>]
     \<in> set ((replicate 128 [])[64 := [\<lparr>valid = True, tag = 1\<rparr>, \<lparr>valid = True, tag = 0\<rparr>]]) \<and>
   int (length [\<lparr>valid = True, tag = 1 :: Address\<rparr>, \<lparr>valid = True, tag = 0\<rparr>]) \<le> WAYS \<and>
   distinct (map tag [\<lparr>valid = True, tag = 1 :: Address\<rparr>, \<lparr>valid = True, tag = 0\<rparr>])"
proof -
  have r: "run [0x1000, 0x3000] CacheSimulator_init =
     Inr \<lparr>sets = (replicate 128 [])[64 := [\<lparr>valid = True, tag = 1\<rparr>, \<lparr>valid = True, tag = 0\<rparr>]],
          accesses = 2, hits = 0, misses = 2\<rparr>"
    by (simp add: CacheSimulator_init_def accessMemory_def index_of_eq tag_of_eq
        NUM_SETS_val WAYS_val Let_def splice_begin_def)
  have m: "[\<lparr>valid = True, tag = 1\<rparr>, \<lparr>valid = True, tag = 0\<rparr>]
     \<in> set ((replicate 128 [])[64 := [\<lparr>valid = True, tag = 1 :: Address\<rparr>, \<lparr>valid = True, tag = 0\<rparr>]])"
    by (rule set_update_memI) simp
  from sets_bounded_distinct [of "[0x1000, 0x3000]"] r m show ?thesis
    by auto
qed

subsection \<open>Address decomposition\<close>

text \<open>
  Claim C3. With the fixed geometry, \<open>OFFSET_BITS\<close> is 6, the base-2 logarithm of the
  block size, and \<open>INDEX_BITS\<close> is 7, that of the number of sets; the index of an
  address is \<open>(address >> 6) & ((1 << 7) - 1)\<close>, its tag is \<open>address >> (6 + 7)\<close>, that
  is, \<open>address div 64 mod 128\<close> and \<open>address div 8192\<close>, and the index is below
  \<open>NUM_SETS\<close> for every 64-bit address. This is the decomposition \<open>accessMemory\<close>
  works with: in a state with \<open>NUM_SETS\<close> sets the access succeeds, changes no set
  but the one at index \<open>(address >> 6) & ((1 << 7) - 1)\<close>, leaves the valid line with
  tag \<open>address >> (6 + 7)\<close> at the front of that set, and counts a hit exactly when
  that set held a valid line with this tag before.
\<close>

theorem decoder:
  "OFFSET_BITS = 6 \<and> 2 ^ nat OFFSET_BITS = BLOCK_SIZE \<and>
   INDEX_BITS = 7 \<and> 2 ^ nat INDEX_BITS = NUM_SETS \<and>
   index_of a = drop_bit 6 a AND (push_bit 7 1 - 1) \<and>
   tag_of a = drop_bit (6 + 7) a \<and>
   unat (index_of a) = unat a div 64 mod 128 \<and>
   unat (tag_of a) = unat a div 8192 \<and>
   unat (index_of a) < nat NUM_SETS \<and>
   (length (sets s) = nat NUM_SETS \<longrightarrow>
      (\<exists>s' cs. accessMemory a s = Inr s' \<and>
         sets s' = (sets s)[unat (drop_bit 6 a AND (push_bit 7 1 - 1)) :=
                      \<lparr>valid = True, tag = drop_bit (6 + 7) a\<rparr> # cs] \<and>
         (hits s' = hits s + 1) =
           (\<exists>l\<in>set (sets s ! unat (drop_bit 6 a AND (push_bit 7 1 - 1))).
              valid l \<and> tag l = drop_bit (6 + 7) a)))"
proof -
  have bits: "OFFSET_BITS = 6 \<and> 2 ^ nat OFFSET_BITS = BLOCK_SIZE \<and>
              INDEX_BITS = 7 \<and> 2 ^ nat INDEX_BITS = NUM_SETS"
    by (simp add: OFFSET_BITS_val INDEX_BITS_val NUM_SETS_val BLOCK_SIZE_def)
  have i: "index_of a = drop_bit 6 a AND (push_bit 7 1 - 1)"
    by (simp add: index_of_eq)
  have t: "tag_of a = drop_bit (6 + 7) a"
    by (simp add: tag_of_eq)
  have bound: "unat (index_of a) < nat NUM_SETS"
    using index_of_less [of a] by (simp add: NUM_SETS_val)
  have acc: "length (sets s) = nat NUM_SETS \<longrightarrow>
      (\<exists>s' cs. accessMemory a s = Inr s' \<and>
         sets s' = (sets s)[unat (drop_bit 6 a AND (push_bit 7 1 - 1)) :=
                      \<lparr>valid = True, tag = drop_bit (6 + 7) a\<rparr> # cs] \<and>
         (hits s' = hits s + 1) =
           (\<exists>l\<in>set (sets s ! unat (drop_bit 6 a AND (push_bit 7 1 - 1))).
              valid l \<and> tag l = drop_bit (6 + 7) a))"
    using accessMemory_decodes [of s a] unfolding i t by blast
  from bits i t unat_index_of [of a] unat_tag_of [of a] bound acc show ?thesis
    by blast
qed

theorem decoder_witness:
  "length (sets \<lparr>sets = (replicate 128 [])[64 := [\<lparr>valid = True, tag = 1\<rparr>, \<lparr>valid = True, tag = 0\<rparr>]],
                 accesses = 2, hits = 0, misses = 2\<rparr>) = nat NUM_SETS \<and>
   unat (drop_bit 6 (0x1000 :: Address) AND (push_bit 7 1 - 1)) = 64 \<and>
   drop_bit (6 + 7) (0x1000 :: Address) = 0 \<and>
   index_of 0x1000 = 64 \<and> tag_of 0x1000 = 0 \<and>
   accessMemory 0x1000
     \<lparr>sets = (replicate 128 [])[64 := [\<lparr>valid = True, tag = 1\<rparr>, \<lparr>valid = True, tag = 0\<rparr>]],
      accesses = 2, hits = 0, misses = 2\<rparr> =
   Inr \<lparr>sets = (replicate 128 [])[64 := [\<lparr>valid = True, tag = 0\<rparr>, \<lparr>valid = True, tag = 1\<rparr>]],
        accesses = 3, hits = 1, misses = 2\<rparr>"
proof -
  have c:
    "length (sets \<lparr>sets = (replicate 128 [])[64 := [\<lparr>valid = True, tag = 1\<rparr>, \<lparr>valid = True, tag = 0\<rparr>]],
                   accesses = 2, hits = 0, misses = 2\<rparr>) = nat NUM_SETS \<and>
     unat (drop_bit 6 (0x1000 :: Address) AND (push_bit 7 1 - 1)) = 64 \<and>
     drop_bit (6 + 7) (0x1000 :: Address) = 0 \<and>
     index_of 0x1000 = 64 \<and> tag_of 0x1000 = 0 \<and>
     accessMemory 0x1000
       \<lparr>sets = (replicate 128 [])[64 := [\<lparr>valid = True, tag = 1\<rparr>, \<lparr>valid = True, tag = 0\<rparr>]],
        accesses = 2, hits = 0, misses = 2\<rparr> =
     Inr \<lparr>sets = (replicate 128 [])[64 := [\<lparr>valid = True, tag = 0\<rparr>, \<lparr>valid = True, tag = 1\<rparr>]],
          accesses = 3, hits = 1, misses = 2\<rparr>"
    by (simp add: eval_defs)
  show ?thesis
    using decoder [of "0x1000" "\<lparr>sets = (replicate 128 [])[64 := [\<lparr>valid = True, tag = 1\<rparr>, \<lparr>valid = True, tag = 0\<rparr>]],
                 accesses = 2, hits = 0, misses = 2\<rparr>"] c
    by blast
qed

subsection \<open>The hit path\<close>

text \<open>
  Claim C4. In a state with \<open>NUM_SETS\<close> sets, if the set selected by the index of the
  address holds a valid line with the tag of the address, then the access succeeds,
  adds one to \<open>accesses\<close> and \<open>hits\<close> and leaves \<open>misses\<close> alone; the set is split as
  \<open>pre @ l # post\<close> around its first matching line \<open>l\<close>, and becomes \<open>l # pre @ post\<close>: the
  line moves to the front unchanged, the other lines keep their content and relative
  order, and every other set is unchanged.
\<close>

theorem hit_path:
  assumes "length (sets s) = nat NUM_SETS"
    and "\<exists>l\<in>set (sets s ! unat (index_of a)). valid l \<and> tag l = tag_of a"
  shows "\<exists>s' pre l post.
      accessMemory a s = Inr s' \<and>
      accesses s' = accesses s + 1 \<and> hits s' = hits s + 1 \<and> misses s' = misses s \<and>
      sets s ! unat (index_of a) = pre @ l # post \<and>
      valid l \<and> tag l = tag_of a \<and> (\<forall>x\<in>set pre. \<not> (valid x \<and> tag x = tag_of a)) \<and>
      sets s' = (sets s)[unat (index_of a) := l # pre @ post]"
proof -
  let ?k = "unat (index_of a)"
  let ?P = "\<lambda>line. valid line \<and> tag line = tag_of a"
  have b: "?k < length (sets s)"
    using assms(1) index_of_less [of a] by (simp add: NUM_SETS_val)
  from find_if_ex [of "sets s ! ?k" ?P] assms(2) obtain i
    where f: "find_if ?P (sets s ! ?k) = Some i" by blast
  from splice_begin_split [OF f] obtain pre l post
    where sp: "sets s ! ?k = pre @ l # post" "?P l" "\<forall>x\<in>set pre. \<not> ?P x"
      "splice_begin i (sets s ! ?k) = l # pre @ post" by blast
  let ?s' = "s\<lparr>accesses := accesses s + 1, hits := hits s + 1,
                sets := (sets s)[?k := splice_begin i (sets s ! ?k)]\<rparr>"
  have r: "accessMemory a s = Inr ?s'" using b f by (rule accessMemory_hit)
  have "accesses ?s' = accesses s + 1 \<and> hits ?s' = hits s + 1 \<and> misses ?s' = misses s \<and>
        sets ?s' = (sets s)[?k := l # pre @ post]"
    using sp(4) by simp
  with r sp(1,2,3) show ?thesis by blast
qed

theorem hit_path_witness:
  "length (sets \<lparr>sets = (replicate 128 [])[64 := [\<lparr>valid = True, tag = 1\<rparr>, \<lparr>valid = True, tag = 0\<rparr>]],
                 accesses = 2, hits = 0, misses = 2\<rparr>) = nat NUM_SETS \<and>
   unat (index_of 0x1000) = 64 \<and> tag_of 0x1000 = 0 \<and>
   accessMemory 0x1000
     \<lparr>sets = (replicate 128 [])[64 := [\<lparr>valid = True, tag = 1\<rparr>, \<lparr>valid = True, tag = 0\<rparr>]],
      accesses = 2, hits = 0, misses = 2\<rparr> =
   Inr \<lparr>sets = (replicate 128 [])[64 := [\<lparr>valid = True, tag = 0\<rparr>, \<lparr>valid = True, tag = 1\<rparr>]],
        accesses = 3, hits = 1, misses = 2\<rparr>"
  using hit_path [of "\<lparr>sets = (replicate 128 [])[64 := [\<lparr>valid = True, tag = 1\<rparr>, \<lparr>valid = True, tag = 0\<rparr>]],
                 accesses = 2, hits = 0, misses = 2\<rparr>" "0x1000"]
  by (simp add: accessMemory_def index_of_eq tag_of_eq NUM_SETS_val WAYS_val Let_def splice_begin_def)

subsection \<open>The miss path\<close>

text \<open>
  Claim C5. In a state with \<open>NUM_SETS\<close> sets, if the set selected by the index of the
  address holds no valid line with the tag of the address, then the access succeeds,
  adds one to \<open>accesses\<close> and \<open>misses\<close> and leaves \<open>hits\<close> alone; it puts the new line
  \<open>\<lparr>valid = True, tag\<rparr>\<close> at the front of that set and, if the set then has more than
  \<open>WAYS\<close> lines, removes the last one; every other set is unchanged. A set that had
  at most \<open>WAYS\<close> lines before, as every set of a reachable state has, has at most
  \<open>WAYS\<close> lines after.
\<close>

theorem miss_path:
  assumes "length (sets s) = nat NUM_SETS"
    and "\<forall>l\<in>set (sets s ! unat (index_of a)). \<not> (valid l \<and> tag l = tag_of a)"
  shows "\<exists>s' cs'.
      accessMemory a s = Inr s' \<and>
      accesses s' = accesses s + 1 \<and> misses s' = misses s + 1 \<and> hits s' = hits s \<and>
      sets s' = (sets s)[unat (index_of a) := cs'] \<and>
      cs' = (if int (length (\<lparr>valid = True, tag = tag_of a\<rparr> # sets s ! unat (index_of a))) > WAYS
             then butlast (\<lparr>valid = True, tag = tag_of a\<rparr> # sets s ! unat (index_of a))
             else \<lparr>valid = True, tag = tag_of a\<rparr> # sets s ! unat (index_of a)) \<and>
      cs' \<noteq> [] \<and> hd cs' = \<lparr>valid = True, tag = tag_of a\<rparr> \<and>
      (int (length (sets s ! unat (index_of a))) \<le> WAYS \<longrightarrow> int (length cs') \<le> WAYS)"
proof -
  let ?k = "unat (index_of a)"
  let ?P = "\<lambda>line. valid line \<and> tag line = tag_of a"
  let ?new = "\<lparr>valid = True, tag = tag_of a\<rparr>"
  let ?cs' = "if int (length (?new # sets s ! ?k)) > WAYS
              then butlast (?new # sets s ! ?k) else ?new # sets s ! ?k"
  have b: "?k < length (sets s)"
    using assms(1) index_of_less [of a] by (simp add: NUM_SETS_val)
  have f: "find_if ?P (sets s ! ?k) = None"
    using assms(2) by (simp add: find_if_None)
  let ?s' = "s\<lparr>accesses := accesses s + 1, misses := misses s + 1,
                sets := (sets s)[?k := (if int (length (sets s ! ?k)) + 1 > WAYS
                           then butlast (?new # sets s ! ?k) else ?new # sets s ! ?k)]\<rparr>"
  have r: "accessMemory a s = Inr ?s'" using b f by (rule accessMemory_miss)
  have c: "accesses ?s' = accesses s + 1 \<and> misses ?s' = misses s + 1 \<and> hits ?s' = hits s \<and>
        sets ?s' = (sets s)[?k := ?cs']"
    by simp
  have h: "?cs' \<noteq> [] \<and> hd ?cs' = ?new"
    by (cases "sets s ! ?k") (simp_all add: WAYS_val)
  have l: "int (length (sets s ! ?k)) \<le> WAYS \<longrightarrow> int (length ?cs') \<le> WAYS"
    by simp
  from r c h l show ?thesis by blast
qed

theorem miss_path_witness:
  "length (sets \<lparr>sets = (replicate 128 [])[64 := [\<lparr>valid = True, tag = 3\<rparr>, \<lparr>valid = True, tag = 2\<rparr>,
                     \<lparr>valid = True, tag = 1\<rparr>, \<lparr>valid = True, tag = 0\<rparr>]],
                 accesses = 4, hits = 0, misses = 4\<rparr>) = nat NUM_SETS \<and>
   unat (index_of 0x9000) = 64 \<and> tag_of 0x9000 = 4 \<and>
   int (length [\<lparr>valid = True, tag = 3 :: Address\<rparr>, \<lparr>valid = True, tag = 2\<rparr>,
                \<lparr>valid = True, tag = 1\<rparr>, \<lparr>valid = True, tag = 0\<rparr>]) \<le> WAYS \<and>
   accessMemory 0x9000
     \<lparr>sets = (replicate 128 [])[64 := [\<lparr>valid = True, tag = 3\<rparr>, \<lparr>valid = True, tag = 2\<rparr>,
                     \<lparr>valid = True, tag = 1\<rparr>, \<lparr>valid = True, tag = 0\<rparr>]],
      accesses = 4, hits = 0, misses = 4\<rparr> =
   Inr \<lparr>sets = (replicate 128 [])[64 := [\<lparr>valid = True, tag = 4\<rparr>, \<lparr>valid = True, tag = 3\<rparr>,
                     \<lparr>valid = True, tag = 2\<rparr>, \<lparr>valid = True, tag = 1\<rparr>]],
        accesses = 5, hits = 0, misses = 5\<rparr>"
  using miss_path [of "\<lparr>sets = (replicate 128 [])[64 := [\<lparr>valid = True, tag = 3\<rparr>, \<lparr>valid = True, tag = 2\<rparr>,
                     \<lparr>valid = True, tag = 1\<rparr>, \<lparr>valid = True, tag = 0\<rparr>]],
                 accesses = 4, hits = 0, misses = 4\<rparr>" "0x9000"]
  by (simp add: accessMemory_def index_of_eq tag_of_eq NUM_SETS_val WAYS_val Let_def splice_begin_def)

subsection \<open>Totality\<close>

text \<open>
  Claim C6. An access cannot fail: after any sequence of accesses on a freshly
  constructed simulator the vector still has \<open>NUM_SETS\<close> sets, the index of any 64-bit
  address is inside it, and the access returns a state, again with \<open>NUM_SETS\<close> sets.
\<close>

theorem access_total:
  "\<exists>s s'. run tr CacheSimulator_init = Inr s \<and> length (sets s) = nat NUM_SETS \<and>
      unat (index_of a) < length (sets s) \<and> accessMemory a s = Inr s' \<and>
      length (sets s') = nat NUM_SETS"
proof -
  from cache_inv_run [OF cache_inv_init, of tr] obtain s
    where r: "run tr CacheSimulator_init = Inr s" and i: "cache_inv s" by blast
  from cache_inv_step [OF i, of a] obtain s'
    where a: "accessMemory a s = Inr s'" and i': "cache_inv s'" by blast
  from i have len: "length (sets s) = nat NUM_SETS" by (simp add: cache_inv_def)
  from i' have len': "length (sets s') = nat NUM_SETS" by (simp add: cache_inv_def)
  from len have b: "unat (index_of a) < length (sets s)"
    using index_of_less [of a] by (simp add: NUM_SETS_val)
  from r len b a len' show ?thesis by blast
qed

subsection \<open>Spatial locality\<close>

text \<open>
  Claim C8, as stated, puts the addresses \<open>0x1000\<close>, \<open>0x1004\<close> and \<open>0x1008\<close> in set 0. With
  6 offset bits and 7 index bits, \<open>0x1000 >> 6\<close> is 64 and stays 64 under the mask 127:
  the set index is 64.
\<close>

theorem same_block_index_counterexample:
  "unat (index_of 0x1000) = 64 \<and> index_of 0x1000 \<noteq> 0"
  by (simp add: index_of_eq)

text \<open>
  Claim C8, amended. The three addresses \<open>0x1000\<close>, \<open>0x1004\<close> and \<open>0x1008\<close> all decode to
  set index 64 with the common tag 0, and a freshly constructed simulator fed with them
  in this order counts a miss, then a hit, then a hit.
\<close>

theorem same_block_miss_hit_hit:
  "index_of 0x1000 = 64 \<and> index_of 0x1004 = 64 \<and> index_of 0x1008 = 64 \<and>
   tag_of 0x1000 = 0 \<and> tag_of 0x1004 = 0 \<and> tag_of 0x1008 = 0 \<and>
   run [0x1000] CacheSimulator_init =
     Inr \<lparr>sets = (replicate 128 [])[64 := [\<lparr>valid = True, tag = 0\<rparr>]],
          accesses = 1, hits = 0, misses = 1\<rparr> \<and>
   run [0x1000, 0x1004] CacheSimulator_init =
     Inr \<lparr>sets = (replicate 128 [])[64 := [\<lparr>valid = True, tag = 0\<rparr>]],
          accesses = 2, hits = 1, misses = 1\<rparr> \<and>
   run [0x1000, 0x1004, 0x1008] CacheSimulator_init =
     Inr \<lparr>sets = (replicate 128 [])[64 := [\<lparr>valid = True, tag = 0\<rparr>]],
          accesses = 3, hits = 2, misses = 1\<rparr>"
  by (simp add: eval_defs)

subsection \<open>Eviction of the least recently used line\<close>

text \<open>
  Claim C9. Let the set selected by address \<open>a4\<close> hold exactly the four valid lines with
  tags \<open>t0, t1, t2, t3\<close>, front to back, all different from each other and from the tag
  of \<open>a4\<close>. Then the access to \<open>a4\<close> is a miss and leaves the set as
  \<open>[tag_of a4, t0, t1, t2]\<close>: exactly \<open>t3\<close> is gone. In the state reached, an access to
  any address of this set with tag \<open>t3\<close> is a miss, and one with tag \<open>t0\<close>, \<open>t1\<close> or
  \<open>t2\<close> is a hit.
\<close>

theorem lru_eviction:
  assumes "length (sets s) = nat NUM_SETS"
    and "sets s ! unat (index_of a4) =
           [\<lparr>valid = True, tag = t0\<rparr>, \<lparr>valid = True, tag = t1\<rparr>,
            \<lparr>valid = True, tag = t2\<rparr>, \<lparr>valid = True, tag = t3\<rparr>]"
    and "distinct [t0, t1, t2, t3, tag_of a4]"
  shows "\<exists>s'. accessMemory a4 s = Inr s' \<and>
           misses s' = misses s + 1 \<and> hits s' = hits s \<and>
           sets s' = (sets s)[unat (index_of a4) :=
                       [\<lparr>valid = True, tag = tag_of a4\<rparr>, \<lparr>valid = True, tag = t0\<rparr>,
                        \<lparr>valid = True, tag = t1\<rparr>, \<lparr>valid = True, tag = t2\<rparr>]] \<and>
           (\<forall>a. index_of a = index_of a4 \<longrightarrow>
              (tag_of a = t3 \<longrightarrow>
                 (\<exists>s''. accessMemory a s' = Inr s'' \<and>
                    misses s'' = misses s' + 1 \<and> hits s'' = hits s')) \<and>
              (tag_of a = t0 \<or> tag_of a = t1 \<or> tag_of a = t2 \<longrightarrow>
                 (\<exists>s''. accessMemory a s' = Inr s'' \<and>
                    hits s'' = hits s' + 1 \<and> misses s'' = misses s')))"
proof -
  let ?k = "unat (index_of a4)"
  let ?cs' = "[\<lparr>valid = True, tag = tag_of a4\<rparr>, \<lparr>valid = True, tag = t0\<rparr>,
               \<lparr>valid = True, tag = t1\<rparr>, \<lparr>valid = True, tag = t2\<rparr>]"
  let ?s' = "s\<lparr>accesses := accesses s + 1, misses := misses s + 1,
                sets := (sets s)[?k := ?cs']\<rparr>"
  have b: "?k < length (sets s)"
    using assms(1) index_of_less [of a4] by (simp add: NUM_SETS_val)
  have f: "find_if (\<lambda>line. valid line \<and> tag line = tag_of a4) (sets s ! ?k) = None"
    using assms(2,3) by auto
  have r: "accessMemory a4 s = Inr ?s'"
    using accessMemory_miss [OF b f] assms(2) by (simp add: WAYS_val)
  have set': "sets ?s' ! ?k = ?cs'" and b': "?k < length (sets ?s')"
    using b by simp_all
  have after: "(tag_of a = t3 \<longrightarrow>
                 (\<exists>s''. accessMemory a ?s' = Inr s'' \<and>
                    misses s'' = misses ?s' + 1 \<and> hits s'' = hits ?s')) \<and>
              (tag_of a = t0 \<or> tag_of a = t1 \<or> tag_of a = t2 \<longrightarrow>
                 (\<exists>s''. accessMemory a ?s' = Inr s'' \<and>
                    hits s'' = hits ?s' + 1 \<and> misses s'' = misses ?s'))"
    if same: "index_of a = index_of a4" for a
  proof (intro conjI impI)
    assume t: "tag_of a = t3"
    have "find_if (\<lambda>line. valid line \<and> tag line = tag_of a) (sets ?s' ! unat (index_of a)) = None"
      unfolding same set' using assms(3) t by auto
    from accessMemory_miss [OF _ this] b' same
    show "\<exists>s''. accessMemory a ?s' = Inr s'' \<and>
            misses s'' = misses ?s' + 1 \<and> hits s'' = hits ?s'"
      by simp
  next
    assume t: "tag_of a = t0 \<or> tag_of a = t1 \<or> tag_of a = t2"
    have "\<exists>i. find_if (\<lambda>line. valid line \<and> tag line = tag_of a)
                 (sets ?s' ! unat (index_of a)) = Some i"
      unfolding same set' using t by auto
    then obtain i where
      "find_if (\<lambda>line. valid line \<and> tag line = tag_of a) (sets ?s' ! unat (index_of a)) = Some i"
      by blast
    from accessMemory_hit [OF _ this] b' same
    show "\<exists>s''. accessMemory a ?s' = Inr s'' \<and>
            hits s'' = hits ?s' + 1 \<and> misses s'' = misses ?s'"
      by simp
  qed
  have "misses ?s' = misses s + 1 \<and> hits ?s' = hits s \<and> sets ?s' = (sets s)[?k := ?cs']"
    by simp
  with r after show ?thesis by blast
qed

theorem lru_eviction_witness:
  "length (sets \<lparr>sets = (replicate 128 [])[64 := [\<lparr>valid = True, tag = 3\<rparr>, \<lparr>valid = True, tag = 2\<rparr>,
                     \<lparr>valid = True, tag = 1\<rparr>, \<lparr>valid = True, tag = 0\<rparr>]],
                 accesses = 4, hits = 0, misses = 4\<rparr>) = nat NUM_SETS \<and>
   unat (index_of 0x9000) = 64 \<and> tag_of 0x9000 = 4 \<and> distinct [3, 2, 1, 0, tag_of 0x9000] \<and>
   index_of 0x1000 = index_of 0x9000 \<and> tag_of 0x1000 = 0 \<and>
   index_of 0x5000 = index_of 0x9000 \<and> tag_of 0x5000 = 2 \<and>
   accessMemory 0x9000
     \<lparr>sets = (replicate 128 [])[64 := [\<lparr>valid = True, tag = 3\<rparr>, \<lparr>valid = True, tag = 2\<rparr>,
                     \<lparr>valid = True, tag = 1\<rparr>, \<lparr>valid = True, tag = 0\<rparr>]],
      accesses = 4, hits = 0, misses = 4\<rparr> =
   Inr \<lparr>sets = (replicate 128 [])[64 := [\<lparr>valid = True, tag = 4\<rparr>, \<lparr>valid = True, tag = 3\<rparr>,
                     \<lparr>valid = True, tag = 2\<rparr>, \<lparr>valid = True, tag = 1\<rparr>]],
        accesses = 5, hits = 0, misses = 5\<rparr> \<and>
   accessMemory 0x1000
     \<lparr>sets = (replicate 128 [])[64 := [\<lparr>valid = True, tag = 4\<rparr>, \<lparr>valid = True, tag = 3\<rparr>,
                     \<lparr>valid = True, tag = 2\<rparr>, \<lparr>valid = True, tag = 1\<rparr>]],
        accesses = 5, hits = 0, misses = 5\<rparr> =
   Inr \<lparr>sets = (replicate 128 [])[64 := [\<lparr>valid = True, tag = 0\<rparr>, \<lparr>valid = True, tag = 4\<rparr>,
                     \<lparr>valid = True, tag = 3\<rparr>, \<lparr>valid = True, tag = 2\<rparr>]],
        accesses = 6, hits = 0, misses = 6\<rparr> \<and>
   accessMemory 0x5000
     \<lparr>sets = (replicate 128 [])[64 := [\<lparr>valid = True, tag = 4\<rparr>, \<lparr>valid = True, tag = 3\<rparr>,
                     \<lparr>valid = True, tag = 2\<rparr>, \<lparr>valid = True, tag = 1\<rparr>]],
        accesses = 5, hits = 0, misses = 5\<rparr> =
   Inr \<lparr>sets = (replicate 128 [])[64 := [\<lparr>valid = True, tag = 2\<rparr>, \<lparr>valid = True, tag = 4\<rparr>,
                     \<lparr>valid = True, tag = 3\<rparr>, \<lparr>valid = True, tag = 1\<rparr>]],
        accesses = 6, hits = 1, misses = 5\<rparr>"
  using lru_eviction [of "\<lparr>sets = (replicate 128 [])[64 := [\<lparr>valid = True, tag = 3\<rparr>, \<lparr>valid = True, tag = 2\<rparr>,
                     \<lparr>valid = True, tag = 1\<rparr>, \<lparr>valid = True, tag = 0\<rparr>]],
                 accesses = 4, hits = 0, misses = 4\<rparr>" "0x9000" 3 2 1 0]
  by (simp add: eval_defs)

subsection \<open>The reference trace of the program\<close>

text \<open>
  Claim C10. The trace hardcoded in \<open>main\<close> ends with 11 accesses, 4 hits and 7
  misses. The pairs (hits, misses) after each of the 11 accesses show which ones hit:
  the second, third, fifth and sixth, that is \<open>0x1004\<close>, \<open>0x1008\<close>, \<open>0x2004\<close> and the
  second \<open>0x1000\<close>; all the others, the five from \<open>0x3000\<close> to \<open>0x7000\<close> among them,
  miss.
\<close>

theorem reference_trace:
  "run trace CacheSimulator_init =
     Inr \<lparr>sets = (replicate 128 [])
             [64 := [\<lparr>valid = True, tag = 3\<rparr>, \<lparr>valid = True, tag = 2\<rparr>,
                     \<lparr>valid = True, tag = 1\<rparr>, \<lparr>valid = True, tag = 0\<rparr>],
              0 := [\<lparr>valid = True, tag = 3\<rparr>, \<lparr>valid = True, tag = 2\<rparr>,
                    \<lparr>valid = True, tag = 1\<rparr>]],
          accesses = 11, hits = 4, misses = 7\<rparr> \<and>
   map (\<lambda>n. map_sum id (\<lambda>s. (sint (hits s), sint (misses s)))
              (run (take n trace) CacheSimulator_init))
       [1, 2, 3, 4, 5, 6, 7, 8, 9, 10, 11] =
     [Inr (0, 1), Inr (1, 1), Inr (2, 1), Inr (2, 2), Inr (3, 2), Inr (4, 2),
      Inr (4, 3), Inr (4, 4), Inr (4, 5), Inr (4, 6), Inr (4, 7)] \<and>
   main = Inr (11, 4, 7, 400 / 11)"
  by (simp add: eval_defs trace_def main_def printStats_def hitRate_def list_update_swap)

end
